theory Spec2Isabelle
  imports Complex_Main "HOL-Library.AList"
begin

section \<open>Data model\<close>

text \<open>
  The repository is a BM25 inverted index (\<^verbatim>\<open>inverted_index.py\<close>) and its evaluation
  (\<^verbatim>\<open>evaluate.py\<close>).  Document ids are Python integers, modelled as \<^typ>\<open>int\<close>.
  Scores are Python floats (and, during the first pass, integer term counts); they are
  modelled as \<^typ>\<open>real\<close>, so every arithmetic step is exact and rounding, infinities
  and NaN are outside the model.  A character stands for one code point of the text.
\<close>

datatype error = ValueError | ZeroDivisionError | IndexError | KeyError

type_synonym posting = "int \<times> real"

type_synonym doc = "string \<times> string \<times> int"

text \<open>
  The fields that \<^verbatim>\<open>InvertedIndex.__init__\<close> creates.  The dictionary
  \<^verbatim>\<open>inverted_lists\<close> is an association list in insertion order, as a Python dictionary is.
\<close>

record InvertedIndex =
  inverted_lists :: "(string \<times> posting list) list"
  docs :: "doc list"
  avdoclen :: real

definition InvertedIndex_init :: InvertedIndex where
  "InvertedIndex_init = \<lparr>inverted_lists = [], docs = [], avdoclen = 0\<rparr>"

section \<open>Strings\<close>

text \<open>
  The character class \<^verbatim>\<open>[A-Za-z]\<close> of the two regular expressions, the characters that
  \<^verbatim>\<open>str.strip()\<close> removes (those for which \<^verbatim>\<open>str.isspace\<close> holds, among the code
  points below 256), and \<^verbatim>\<open>str.lower()\<close> on those code points.
\<close>

definition is_alpha :: "char \<Rightarrow> bool" where
  "is_alpha c = (let n = (of_char c :: nat) in (65 \<le> n \<and> n \<le> 90) \<or> (97 \<le> n \<and> n \<le> 122))"

definition is_space :: "char \<Rightarrow> bool" where
  "is_space c = (let n = (of_char c :: nat) in
     (9 \<le> n \<and> n \<le> 13) \<or> (28 \<le> n \<and> n \<le> 32) \<or> n = 133 \<or> n = 160)"

definition lower_char :: "char \<Rightarrow> char" where
  "lower_char c = (let n = (of_char c :: nat) in
     if (65 \<le> n \<and> n \<le> 90) \<or> (192 \<le> n \<and> n \<le> 222 \<and> n \<noteq> 215) then char_of (n + 32) else c)"

definition lower :: "string \<Rightarrow> string" where
  "lower s = map lower_char s"

definition strip :: "string \<Rightarrow> string" where
  "strip s = rev (dropWhile is_space (rev (dropWhile is_space s)))"

text \<open>
  \<^verbatim>\<open>re.split("[^A-Za-z]+", s)\<close>: the pieces of \<open>s\<close> between the maximal runs of
  characters that are not ASCII letters.  A run at the start or at the end of \<open>s\<close> leaves an
  empty piece there, and the empty string gives one empty piece.
\<close>

function re_split :: "string \<Rightarrow> string list" where
  "re_split s =
     (case dropWhile is_alpha s of
        [] \<Rightarrow> [s]
      | c # rest \<Rightarrow> takeWhile is_alpha s # re_split (dropWhile (\<lambda>c. \<not> is_alpha c) rest))"
  by pat_completeness auto
termination
proof (relation "measure length", goal_cases)
  case 1
  show ?case by simp
next
  case (2 s c rest)
  have "length (dropWhile (\<lambda>c. \<not> is_alpha c) rest) \<le> length rest"
    by (rule length_dropWhile_le)
  moreover have "length (dropWhile is_alpha s) \<le> length s"
    by (rule length_dropWhile_le)
  ultimately show ?case using 2 by simp
qed

declare re_split.simps [simp del]

text \<open>
  \<^verbatim>\<open>s.split(sep, maxsplit)\<close> for a separator of one character: at most \<open>maxsplit\<close>
  cuts, from the left; what is left over is the last element.
\<close>

fun split_max :: "char \<Rightarrow> nat \<Rightarrow> string \<Rightarrow> string list" where
  "split_max sep 0 s = [s]"
| "split_max sep (Suc n) s =
     (case dropWhile (\<lambda>c. c \<noteq> sep) s of
        [] \<Rightarrow> [s]
      | c # rest \<Rightarrow> takeWhile (\<lambda>c. c \<noteq> sep) s # split_max sep n rest)"

definition TAB :: char where
  "TAB = CHR 0x09"

text \<open>Python list indexing \<^verbatim>\<open>xs[i]\<close>: a negative index counts from the end.\<close>

definition py_index :: "'a list \<Rightarrow> int \<Rightarrow> error + 'a" where
  "py_index xs i =
     (if 0 \<le> i \<and> i < int (length xs) then Inr (xs ! nat i)
      else if i < 0 \<and> - int (length xs) \<le> i then Inr (xs ! nat (int (length xs) + i))
      else Inl IndexError)"

section \<open>Index builder\<close>

text \<open>
  Lines 78 to 91 of \<^verbatim>\<open>build_from_file\<close>: what the loop over the words of a line does
  with one word.  Reading \<^verbatim>\<open>self.inverted_lists[word][-1]\<close> raises on an empty list.
\<close>

definition add_word ::
  "int \<Rightarrow> string \<Rightarrow> (string \<times> posting list) list \<Rightarrow> error + (string \<times> posting list) list" where
  "add_word doc_id w il =
     (let word = strip (lower w) in
      if length word = 0 then Inr il
      else
        (case map_of il word of
           None \<Rightarrow> Inr (AList.update word [(doc_id, 1)] il)
         | Some pl \<Rightarrow>
             (case py_index pl (- 1) of
                Inl e \<Rightarrow> Inl e
              | Inr lst \<Rightarrow>
                  if fst lst \<noteq> doc_id then Inr (AList.update word (pl @ [(doc_id, 1)]) il)
                  else if fst lst = doc_id
                    then Inr (AList.update word (butlast pl @ [(fst lst, snd lst + 1)]) il)
                  else Inr il)))"

fun add_words ::
  "int \<Rightarrow> string list \<Rightarrow> (string \<times> posting list) list
    \<Rightarrow> error + (string \<times> posting list) list" where
  "add_words doc_id [] il = Inr il"
| "add_words doc_id (w # ws) il =
     (case add_word doc_id w il of
        Inl e \<Rightarrow> Inl e
      | Inr il' \<Rightarrow> add_words doc_id ws il')"

text \<open>
  Lines 69 to 91: the body of the loop over the lines of the file, with \<open>doc_id\<close> the id
  after \<^verbatim>\<open>doc_id += 1\<close>.  Unpacking \<^verbatim>\<open>line.split("\t", 2)\<close> into three names raises
  \<^verbatim>\<open>ValueError\<close> unless the split has exactly three elements.
\<close>

definition build_line :: "InvertedIndex \<Rightarrow> int \<Rightarrow> string \<Rightarrow> error + InvertedIndex" where
  "build_line self doc_id line0 =
     (let line = strip line0 in
      case split_max TAB 2 line of
        [title, description, _] \<Rightarrow>
          (let self1 = self\<lparr>docs := docs self @ [(title, description, int (length (re_split line)))]\<rparr>
           in case add_words doc_id (re_split line) (inverted_lists self1) of
                Inl e \<Rightarrow> Inl e
              | Inr il \<Rightarrow> Inr (self1\<lparr>inverted_lists := il\<rparr>))
      | _ \<Rightarrow> Inl ValueError)"

fun build_lines :: "InvertedIndex \<Rightarrow> int \<Rightarrow> string list \<Rightarrow> error + InvertedIndex" where
  "build_lines self doc_id [] = Inr self"
| "build_lines self doc_id (line # rest) =
     (case build_line self (doc_id + 1) line of
        Inl e \<Rightarrow> Inl e
      | Inr self' \<Rightarrow> build_lines self' (doc_id + 1) rest)"

text \<open>\<^verbatim>\<open>bm25tf\<close>, lines 106 to 117: the loop body for one posting, then the loop.\<close>

definition bm25tf_doc :: "InvertedIndex \<Rightarrow> real \<Rightarrow> real \<Rightarrow> posting \<Rightarrow> error + posting" where
  "bm25tf_doc self k1 b doc =
     (case py_index (docs self) (fst doc - 1) of
        Inl e \<Rightarrow> Inl e
      | Inr d \<Rightarrow>
          if avdoclen self = 0 then Inl ZeroDivisionError
          else
            (let tf0 = b * real_of_int (snd (snd d)) / avdoclen self;
                 tf1 = 1 - b + tf0;
                 tf2 = k1 * tf1;
                 tf3 = tf2 + snd doc
             in if tf3 = 0 then Inl ZeroDivisionError
                else Inr (fst doc, snd doc * (k1 + 1) / tf3)))"

fun bm25tf_postings ::
  "InvertedIndex \<Rightarrow> real \<Rightarrow> real \<Rightarrow> posting list \<Rightarrow> error + posting list" where
  "bm25tf_postings self k1 b [] = Inr []"
| "bm25tf_postings self k1 b (doc # rest) =
     (case bm25tf_doc self k1 b doc of
        Inl e \<Rightarrow> Inl e
      | Inr doc' \<Rightarrow>
          (case bm25tf_postings self k1 b rest of
             Inl e \<Rightarrow> Inl e
           | Inr rest' \<Rightarrow> Inr (doc' # rest')))"

definition bm25tf :: "InvertedIndex \<Rightarrow> real \<Rightarrow> real \<Rightarrow> string \<Rightarrow> error + InvertedIndex" where
  "bm25tf self k1 b term =
     (case map_of (inverted_lists self) term of
        None \<Rightarrow> Inl KeyError
      | Some pl \<Rightarrow>
          (case bm25tf_postings self k1 b pl of
             Inl e \<Rightarrow> Inl e
           | Inr pl' \<Rightarrow> Inr (self\<lparr>inverted_lists := AList.update term pl' (inverted_lists self)\<rparr>)))"

text \<open>
  \<^verbatim>\<open>bm25\<close>, lines 120 to 126.  \<open>idf_arg N n\<close> is the argument of \<^verbatim>\<open>math.log2\<close> on
  line 123 (its divisor \<open>n + 0.5\<close> is never zero), \<open>IDF N n\<close> the value of \<^verbatim>\<open>IDF\<close>;
  \<^verbatim>\<open>math.log2\<close> raises \<^verbatim>\<open>ValueError\<close> outside its domain.
\<close>

definition idf_arg :: "nat \<Rightarrow> nat \<Rightarrow> real" where
  "idf_arg N n = (real N - real n + 0.5) / (real n + 0.5) + 1"

definition IDF :: "nat \<Rightarrow> nat \<Rightarrow> real" where
  "IDF N n = log 2 (idf_arg N n)"

definition bm25 :: "InvertedIndex \<Rightarrow> real \<Rightarrow> real \<Rightarrow> string \<Rightarrow> error + InvertedIndex" where
  "bm25 self k1 b term =
     (case map_of (inverted_lists self) term of
        None \<Rightarrow> Inl KeyError
      | Some pl \<Rightarrow>
          (let N = length (docs self); n = length pl
           in if idf_arg N n \<le> 0 then Inl ValueError
              else Inr (self\<lparr>inverted_lists :=
                     AList.update term (map (\<lambda>doc. (fst doc, snd doc * IDF N n)) pl)
                       (inverted_lists self)\<rparr>)))"

text \<open>Lines 99 to 101: the loop over the words of the dictionary.\<close>

fun second_pass :: "InvertedIndex \<Rightarrow> real \<Rightarrow> real \<Rightarrow> string list \<Rightarrow> error + InvertedIndex" where
  "second_pass self k b [] = Inr self"
| "second_pass self k b (word # rest) =
     (case bm25tf self k b word of
        Inl e \<Rightarrow> Inl e
      | Inr self1 \<Rightarrow>
          (case bm25 self1 k b word of
             Inl e \<Rightarrow> Inl e
           | Inr self2 \<Rightarrow> second_pass self2 k b rest))"

text \<open>
  \<^verbatim>\<open>build_from_file\<close>, lines 66 to 101, on the lines of the file.  Dividing by
  \<^verbatim>\<open>len(self.docs)\<close> raises \<^verbatim>\<open>ZeroDivisionError\<close> when there is no document.
\<close>

definition build_from_file ::
  "InvertedIndex \<Rightarrow> string list \<Rightarrow> real \<Rightarrow> real \<Rightarrow> error + InvertedIndex" where
  "build_from_file self lines b k =
     (case build_lines self 0 lines of
        Inl e \<Rightarrow> Inl e
      | Inr self1 \<Rightarrow>
          (let self2 = self1\<lparr>avdoclen :=
                 foldl (\<lambda>a doc. a + real_of_int (snd (snd doc))) (avdoclen self1) (docs self1)\<rparr>
           in if length (docs self2) = 0 then Inl ZeroDivisionError
              else
                (let self3 = self2\<lparr>avdoclen := avdoclen self2 / real (length (docs self2))\<rparr>
                 in second_pass self3 k b (map fst (inverted_lists self3)))))"

section \<open>List merger\<close>

text \<open>
  \<^verbatim>\<open>InvertedIndex.merge\<close>, lines 159 to 182.  The inner \<^verbatim>\<open>while\<close> copies entries of
  \<^verbatim>\<open>list2\<close> whose id is smaller than the current id of \<^verbatim>\<open>list1\<close>; it returns from
  the whole method (\<open>Inl\<close>) when \<^verbatim>\<open>list2\<close> is used up, and otherwise hands the
  accumulated list (\<open>union_l\<close> for the source's \<^verbatim>\<open>union\<close>) and the cursor back (\<open>Inr\<close>).  Both cursors are below the lengths
  wherever a list is read: \<open>cursor1\<close> by the guard of the outer loop, \<open>cursor2\<close> by that
  guard on entry and by the test after each increment.
\<close>

function merge_inner ::
  "posting list \<Rightarrow> posting list \<Rightarrow> nat \<Rightarrow> posting list \<Rightarrow> nat
    \<Rightarrow> posting list + (posting list \<times> nat)" where
  "merge_inner list1 list2 cursor1 union_l cursor2 =
     (if fst (list2 ! cursor2) < fst (list1 ! cursor1) then
        (if cursor2 + 1 \<ge> length list2 then Inl (union_l @ [list2 ! cursor2])
         else merge_inner list1 list2 cursor1 (union_l @ [list2 ! cursor2]) (cursor2 + 1))
      else Inr (union_l, cursor2))"
  by pat_completeness auto
termination
  by (relation "measure (\<lambda>(list1, list2, cursor1, union_l, cursor2). length list2 - cursor2)") auto

function merge_loop ::
  "posting list \<Rightarrow> posting list \<Rightarrow> posting list \<Rightarrow> nat \<Rightarrow> nat \<Rightarrow> posting list" where
  "merge_loop list1 list2 union_l cursor1 cursor2 =
     (if cursor2 < length list2 \<and> cursor1 < length list1 then
        (case merge_inner list1 list2 cursor1 union_l cursor2 of
           Inl u \<Rightarrow> u
         | Inr (u, c2) \<Rightarrow>
             (let u1 = (if fst (list2 ! c2) = fst (list1 ! cursor1)
                        then u @ [(fst (list2 ! c2), snd (list1 ! cursor1) + snd (list2 ! c2))]
                        else u);
                  u2 = (if fst (list2 ! c2) > fst (list1 ! cursor1)
                        then u1 @ [list1 ! cursor1]
                        else u1)
              in merge_loop list1 list2 u2 (cursor1 + 1) c2))
      else union_l)"
  by pat_completeness auto
termination
  by (relation "measure (\<lambda>(list1, list2, union_l, cursor1, cursor2). length list1 - cursor1)") auto

definition merge :: "posting list \<Rightarrow> posting list \<Rightarrow> posting list" where
  "merge list1 list2 = merge_loop list1 list2 [] 0 0"

declare merge_inner.simps [simp del]
declare merge_loop.simps [simp del]

section \<open>Query engine\<close>

text \<open>
  \<^verbatim>\<open>process_query\<close>, lines 207 to 223.  \<open>first_list\<close> is lines 208 to 211
  (\<^verbatim>\<open>re.split\<close> never returns an empty list, so \<^verbatim>\<open>keywords[0]\<close> exists),
  \<open>query_union\<close> the value of \<^verbatim>\<open>union\<close> after the loop of lines 212 to 216.
  \<^verbatim>\<open>sorted(..., reverse=True)\<close> is stable: entries of equal score keep their order, as
  the insertion sort on the negated score does.  The flag \<^verbatim>\<open>use_refinements\<close> is never
  read and is left out.
\<close>

definition first_list :: "InvertedIndex \<Rightarrow> string list \<Rightarrow> posting list" where
  "first_list self keywords =
     (case keywords of
        [] \<Rightarrow> []
      | k0 # _ \<Rightarrow> (case map_of (inverted_lists self) k0 of Some pl \<Rightarrow> pl | None \<Rightarrow> []))"

definition query_step :: "InvertedIndex \<Rightarrow> posting list \<Rightarrow> string \<Rightarrow> posting list" where
  "query_step self union_l key =
     (case map_of (inverted_lists self) key of
        Some pl \<Rightarrow> merge union_l pl
      | None \<Rightarrow> [])"

definition query_union :: "InvertedIndex \<Rightarrow> string list \<Rightarrow> posting list" where
  "query_union self keywords = foldl (query_step self) (first_list self keywords) keywords"

definition process_query :: "InvertedIndex \<Rightarrow> string \<Rightarrow> int list" where
  "process_query self query =
     (let keywords = re_split query;
          union_l = query_union self keywords;
          sorted_union = sort_key (\<lambda>x. - snd x) union_l
      in map fst sorted_union)"

text \<open>
  The query resolution as the specification words it: the accumulator starts from the posting
  list of the first keyword and only the remaining keywords are folded into it.
\<close>

definition query_union_spec :: "InvertedIndex \<Rightarrow> string list \<Rightarrow> posting list" where
  "query_union_spec self keywords = foldl (query_step self) (first_list self keywords) (tl keywords)"

definition process_query_spec :: "InvertedIndex \<Rightarrow> string \<Rightarrow> int list" where
  "process_query_spec self query =
     map fst (sort_key (\<lambda>x. - snd x) (query_union_spec self (re_split query)))"

section \<open>Evaluator\<close>

text \<open>
  \<^verbatim>\<open>precision_at_k\<close>, lines 86 to 90.  \<open>slice_to xs k\<close> is the slice \<^verbatim>\<open>xs[:k]\<close>, which
  counts a negative \<open>k\<close> from the end.  The division raises when \<open>k\<close> is zero.
\<close>

definition slice_to :: "'a list \<Rightarrow> int \<Rightarrow> 'a list" where
  "slice_to xs k = (if k < 0 then take (nat (int (length xs) + k)) xs else take (nat k) xs)"

definition precision_at_k :: "int list \<Rightarrow> int set \<Rightarrow> int \<Rightarrow> error + real" where
  "precision_at_k result_ids relevant_ids k =
     (let precision = foldl (\<lambda>p a. if a \<in> relevant_ids then p + 1 else p) (0::nat)
                        (slice_to result_ids k)
      in if k = 0 then Inl ZeroDivisionError else Inr (real precision / real_of_int k))"

text \<open>
  \<^verbatim>\<open>average_precision\<close>, lines 105 to 116.  \<open>index_of\<close> is \<^verbatim>\<open>list.index\<close>, the
  position of the first occurrence.  \<^verbatim>\<open>set(relevant_ids)\<close> is the list without its
  duplicates; Python iterates over a set in an order of its own, which the sum of line 114 does
  not depend on in exact arithmetic.
\<close>

fun index_of :: "int list \<Rightarrow> int \<Rightarrow> error + nat" where
  "index_of [] a = Inl ValueError"
| "index_of (x # xs) a =
     (if x = a then Inr 0
      else (case index_of xs a of Inl e \<Rightarrow> Inl e | Inr i \<Rightarrow> Inr (Suc i)))"

fun R_list_loop :: "int list \<Rightarrow> int list \<Rightarrow> error + nat list" where
  "R_list_loop result_ids [] = Inr []"
| "R_list_loop result_ids (a # rest) =
     (if a \<in> set result_ids then
        (case index_of result_ids a of
           Inl e \<Rightarrow> Inl e
         | Inr i \<Rightarrow>
             (case R_list_loop result_ids rest of
                Inl e \<Rightarrow> Inl e
              | Inr R_list \<Rightarrow> Inr (i # R_list)))
      else R_list_loop result_ids rest)"

fun result_loop :: "int list \<Rightarrow> int set \<Rightarrow> nat list \<Rightarrow> error + real list" where
  "result_loop result_ids relevant_ids [] = Inr []"
| "result_loop result_ids relevant_ids (a # rest) =
     (case precision_at_k result_ids relevant_ids (int a + 1) of
        Inl e \<Rightarrow> Inl e
      | Inr p \<Rightarrow>
          (case result_loop result_ids relevant_ids rest of
             Inl e \<Rightarrow> Inl e
           | Inr result \<Rightarrow> Inr (p # result)))"

definition average_precision :: "int list \<Rightarrow> int list \<Rightarrow> error + real" where
  "average_precision result_ids relevant_ids0 =
     (let relevant_ids = remdups relevant_ids0 in
      case R_list_loop result_ids relevant_ids of
        Inl e \<Rightarrow> Inl e
      | Inr R_list \<Rightarrow>
          (case result_loop result_ids (set relevant_ids) R_list of
             Inl e \<Rightarrow> Inl e
           | Inr result \<Rightarrow>
               if length result \<noteq> 0 then
                 (if length relevant_ids = 0 then Inl ZeroDivisionError
                  else Inr (sum_list result / real (length relevant_ids)))
               else Inr 0))"

text \<open>
  The average precision as the specification words it: the precision at the rank of every
  relevant id that is among the results, summed, over the number of relevant ids.
\<close>

definition rank_of :: "int list \<Rightarrow> int \<Rightarrow> nat" where
  "rank_of result_ids a = Suc (length (takeWhile (\<lambda>x. x \<noteq> a) result_ids))"

definition precision_spec :: "int list \<Rightarrow> int set \<Rightarrow> nat \<Rightarrow> real" where
  "precision_spec result_ids relevant_ids k =
     real (length (filter (\<lambda>a. a \<in> relevant_ids) (take k result_ids))) / real k"

definition average_precision_spec :: "int list \<Rightarrow> int set \<Rightarrow> real" where
  "average_precision_spec result_ids relevant_ids =
     (\<Sum>a \<in> relevant_ids \<inter> set result_ids.
        precision_spec result_ids relevant_ids (rank_of result_ids a))
     / real (card relevant_ids)"

section \<open>Invariants and example inputs\<close>

text \<open>
  The posting list invariant of the index: document ids strictly increasing, hence each id at
  most once.  \<open>postings_inv d\<close> is what holds of the dictionary while the document with id
  \<open>d\<close> is read: no list is empty, the ids increase strictly and none exceeds \<open>d\<close>.
\<close>

definition ids_increasing :: "posting list \<Rightarrow> bool" where
  "ids_increasing pl = sorted_wrt (<) (map fst pl)"

definition index_sorted :: "InvertedIndex \<Rightarrow> bool" where
  "index_sorted self =
     list_all (\<lambda>entry. ids_increasing (snd entry) \<and> distinct (map fst (snd entry)))
       (inverted_lists self)"

definition lists_nonempty :: "(string \<times> posting list) list \<Rightarrow> bool" where
  "lists_nonempty il = list_all (\<lambda>entry. snd entry \<noteq> []) il"

definition postings_inv :: "int \<Rightarrow> (string \<times> posting list) list \<Rightarrow> bool" where
  "postings_inv d il =
     list_all (\<lambda>entry. snd entry \<noteq> [] \<and> ids_increasing (snd entry)
                 \<and> list_all (\<lambda>doc. fst doc \<le> d) (snd entry)) il"

text \<open>The document ids of every posting list, the part of the index that the second pass keeps.\<close>

definition doc_ids :: "(string \<times> posting list) list \<Rightarrow> (string \<times> int list) list" where
  "doc_ids il = map (\<lambda>entry. (fst entry, map fst (snd entry))) il"

text \<open>The dictionary of the docstring of \<^verbatim>\<open>process_query\<close>, and a corpus of two lines.\<close>

definition doctest_index :: InvertedIndex where
  "doctest_index = \<lparr>inverted_lists =
       [(''foo'', [(1, 0.2), (3, 0.6)]),
        (''bar'', [(1, 0.4), (2, 0.7), (3, 0.5)]),
        (''baz'', [(2, 0.1)])],
     docs = [], avdoclen = 0\<rparr>"

definition sample_corpus :: "string list" where
  "sample_corpus =
     [''Film'' @ [TAB] @ ''noir film'' @ [TAB] @ ''7'',
      ''Short'' @ [TAB] @ ''film'' @ [TAB] @ ''3'']"

definition sample_index :: InvertedIndex where
  "sample_index = \<lparr>inverted_lists =
       [(''film'', [(1, 88 * IDF 2 2 / 63), (2, 44 * IDF 2 2 / 41)]),
        (''noir'', [(1, 44 * IDF 2 1 / 47)]),
        (''short'', [(2, 44 * IDF 2 1 / 41)])],
     docs = [(''Film'', ''noir film'', 4), (''Short'', ''film'', 3)],
     avdoclen = 7 / 2\<rparr>"

section \<open>Properties of the list merger\<close>

lemma merge_loop_list2_done:
  "length list2 \<le> cursor2 \<Longrightarrow> merge_loop list1 list2 union_l cursor1 cursor2 = union_l"
  by (subst merge_loop.simps) simp

lemma merge_loop_list1_done:
  "length list1 \<le> cursor1 \<Longrightarrow> merge_loop list1 list2 union_l cursor1 cursor2 = union_l"
  by (subst merge_loop.simps) simp

lemma merge_Nil_left: "merge [] list2 = []"
  by (simp add: merge_def merge_loop_list1_done)

lemma merge_Nil_right: "merge list1 [] = []"
  by (simp add: merge_def merge_loop_list2_done)

text \<open>
  Claim C1.  The claim: for posting lists sorted strictly ascending by document id,
  \<^verbatim>\<open>merge\<close> returns their sorted union, with the scores of a shared id summed and no
  entry dropped, and on the lists of the docstring it returns
  \<^verbatim>\<open>[(1,3.8),(2,1.3),(5,3.2),(6,3.3)]\<close>.  On those very lists the method repeats the
  entry \<open>(1, 1.7)\<close> of the second list after the summed entry, because the cursor of the
  second list does not move when the ids are equal, and it drops \<open>(6, 3.3)\<close>, because the
  loop ends with the first list and nothing copies the rest of the second.
\<close>

theorem merge_doctest_diverges:
  "merge [(1, 2.1), (5, 3.2)] [(1, 1.7), (2, 1.3), (6, 3.3)]
     = [(1, 3.8), (1, 1.7), (2, 1.3), (5, 3.2)]
   \<and> merge [(1, 2.1), (5, 3.2)] [(1, 1.7), (2, 1.3), (6, 3.3)]
     \<noteq> [(1, 3.8), (2, 1.3), (5, 3.2), (6, 3.3)]"
  by (simp add: merge_def merge_loop.simps merge_inner.simps)

text \<open>
  Claim C4.  The claim: \<^verbatim>\<open>merge(A, [])\<close> and \<^verbatim>\<open>merge([], A)\<close> return \<open>A\<close> untouched
  and \<^verbatim>\<open>merge([], [])\<close> is empty.  The outer loop needs both cursors inside their lists,
  so with either list empty it never runs and the method returns the empty list: on the
  inputs of the docstring the entries of the other list are lost.
\<close>

theorem merge_empty_input_dropped:
  "merge [(1, 2.3)] [] = [] \<and> merge [] [(1, 2.3), (5, 1.3)] = [] \<and> merge [] [] = []"
  by (simp add: merge_Nil_left merge_Nil_right)

section \<open>Properties of the evaluator\<close>

lemma count_loop_filter:
  "foldl (\<lambda>p a. if a \<in> relevant_ids then p + 1 else p) (n::nat) xs
     = n + length (filter (\<lambda>a. a \<in> relevant_ids) xs)"
  by (induction xs arbitrary: n) simp_all

lemma precision_at_k_zero: "precision_at_k result_ids relevant_ids 0 = Inl ZeroDivisionError"
  by (simp add: precision_at_k_def)

lemma precision_at_k_filter:
  "k \<noteq> 0 \<Longrightarrow> precision_at_k result_ids relevant_ids k
     = Inr (real (length (filter (\<lambda>a. a \<in> relevant_ids) (slice_to result_ids k))) / real_of_int k)"
  by (simp add: precision_at_k_def count_loop_filter)

text \<open>
  Claim C8.  The claim: \<^verbatim>\<open>precision_at_k\<close> with \<open>k = 0\<close> returns \<open>0.0\<close> rather than
  failing, as the docstring of the method shows for this very call.  The method counts
  nothing over the empty slice and then divides \<open>0\<close> by \<open>0\<close>, which raises
  \<^verbatim>\<open>ZeroDivisionError\<close>.
\<close>

theorem precision_at_k_zero_raises:
  "precision_at_k [5, 3, 6, 1, 2] {1, 2, 5, 6, 7, 8} 0 = Inl ZeroDivisionError"
  by (rule precision_at_k_zero)

text \<open>
  Claim C10.  For \<open>k > 0\<close>, \<^verbatim>\<open>precision_at_k\<close> returns the number of relevant entries
  among the first \<open>k\<close> results divided by \<open>k\<close> itself, also when the result list has fewer
  than \<open>k\<close> entries; the value lies between \<open>0\<close> and \<open>1\<close> and is at most the length of the
  result list over \<open>k\<close> (so at most \<open>5/8\<close> for five results at \<open>k = 8\<close>).
\<close>

theorem precision_at_k_positive:
  assumes "0 < k"
  shows "precision_at_k result_ids relevant_ids k
           = Inr (precision_spec result_ids relevant_ids (nat k))
         \<and> 0 \<le> precision_spec result_ids relevant_ids (nat k)
         \<and> precision_spec result_ids relevant_ids (nat k) \<le> 1
         \<and> precision_spec result_ids relevant_ids (nat k)
             \<le> real (length result_ids) / real_of_int k"
proof -
  let ?hits = "length (filter (\<lambda>a. a \<in> relevant_ids) (take (nat k) result_ids))"
  have real_k: "real (nat k) = real_of_int k"
    using assms by simp
  have eq: "precision_at_k result_ids relevant_ids k
              = Inr (precision_spec result_ids relevant_ids (nat k))"
    using assms by (simp add: precision_at_k_filter slice_to_def precision_spec_def)
  have "?hits \<le> length (take (nat k) result_ids)"
    by (rule length_filter_le)
  then have le_k: "?hits \<le> nat k" and le_len: "?hits \<le> length result_ids"
    by simp_all
  have kpos: "0 < real_of_int k"
    using assms by simp
  have "real ?hits \<le> real_of_int k"
    using le_k assms by linarith
  then have up: "precision_spec result_ids relevant_ids (nat k) \<le> 1"
    using kpos by (simp add: precision_spec_def real_k)
  have low: "0 \<le> precision_spec result_ids relevant_ids (nat k)"
    by (simp add: precision_spec_def)
  have short: "precision_spec result_ids relevant_ids (nat k)
                 \<le> real (length result_ids) / real_of_int k"
    unfolding precision_spec_def real_k
    using le_len kpos by (simp add: divide_right_mono)
  show ?thesis
    using eq up low short by blast
qed

theorem precision_at_k_positive_witness:
  "(0::int) < 8 \<and> precision_at_k [5, 3, 6, 1, 2] {1, 2, 5, 6, 7, 8} 8 = Inr (1 / 2)
   \<and> precision_spec [5, 3, 6, 1, 2] {1, 2, 5, 6, 7, 8} 8 \<le> 5 / 8"
  using precision_at_k_positive [of 8 "[5, 3, 6, 1, 2]" "{1, 2, 5, 6, 7, 8}"]
  by (simp add: precision_spec_def)

lemma index_of_first:
  "a \<in> set xs \<Longrightarrow> index_of xs a = Inr (length (takeWhile (\<lambda>x. x \<noteq> a) xs))"
  by (induction xs) auto

lemma R_list_loop_eq:
  "R_list_loop result_ids rel
     = Inr (map (\<lambda>a. length (takeWhile (\<lambda>x. x \<noteq> a) result_ids))
              (filter (\<lambda>a. a \<in> set result_ids) rel))"
  by (induction rel) (simp_all add: index_of_first)

lemma precision_at_k_Suc:
  "precision_at_k result_ids relevant_ids (int i + 1)
     = Inr (precision_spec result_ids relevant_ids (Suc i))"
proof -
  have "precision_at_k result_ids relevant_ids (int i + 1)
          = Inr (real (length (filter (\<lambda>a. a \<in> relevant_ids) (slice_to result_ids (int i + 1))))
                 / real_of_int (int i + 1))"
    by (rule precision_at_k_filter) simp
  moreover have "slice_to result_ids (int i + 1) = take (Suc i) result_ids"
    by (simp add: slice_to_def nat_add_distrib)
  moreover have "real_of_int (int i + 1) = real (Suc i)"
    by simp
  ultimately show ?thesis
    by (simp only: precision_spec_def)
qed

lemma result_loop_eq:
  "result_loop result_ids relevant_ids R_list
     = Inr (map (\<lambda>i. precision_spec result_ids relevant_ids (Suc i)) R_list)"
  by (induction R_list) (simp_all add: precision_at_k_Suc del: of_nat_Suc)

lemma average_precision_eq:
  "average_precision result_ids relevant_ids
     = Inr (if filter (\<lambda>a. a \<in> set result_ids) (remdups relevant_ids) = [] then 0
            else sum_list (map (\<lambda>a. precision_spec result_ids (set relevant_ids) (rank_of result_ids a))
                             (filter (\<lambda>a. a \<in> set result_ids) (remdups relevant_ids)))
                 / real (length (remdups relevant_ids)))"
proof -
  have "remdups relevant_ids \<noteq> []"
    if "filter (\<lambda>a. a \<in> set result_ids) (remdups relevant_ids) \<noteq> []"
    using that by auto
  then show ?thesis
    by (auto simp add: average_precision_def R_list_loop_eq result_loop_eq rank_of_def
          o_def Let_def)
qed

lemma found_sum:
  "sum_list (map f (filter (\<lambda>a. a \<in> set result_ids) (remdups relevant_ids)))
     = sum f (set relevant_ids \<inter> set result_ids)"
proof -
  have "distinct (filter (\<lambda>a. a \<in> set result_ids) (remdups relevant_ids))"
    by simp
  then have "sum_list (map f (filter (\<lambda>a. a \<in> set result_ids) (remdups relevant_ids)))
               = sum f (set (filter (\<lambda>a. a \<in> set result_ids) (remdups relevant_ids)))"
    by (rule sum_list_distinct_conv_sum_set)
  moreover have "set (filter (\<lambda>a. a \<in> set result_ids) (remdups relevant_ids))
                   = set relevant_ids \<inter> set result_ids"
    by auto
  ultimately show ?thesis by simp
qed

lemma average_precision_refines:
  "average_precision result_ids relevant_ids
     = Inr (average_precision_spec result_ids (set relevant_ids))"
proof (cases "filter (\<lambda>a. a \<in> set result_ids) (remdups relevant_ids) = []")
  case True
  then have "set (filter (\<lambda>a. a \<in> set result_ids) (remdups relevant_ids)) = {}"
    by simp
  then have "set relevant_ids \<inter> set result_ids = {}"
    by auto
  then show ?thesis
    using True by (simp add: average_precision_eq average_precision_spec_def)
next
  case False
  then show ?thesis
    by (simp add: average_precision_eq average_precision_spec_def found_sum
          length_remdups_card_conv)
qed

text \<open>
  Claim C6.  \<^verbatim>\<open>average_precision\<close> never raises; it returns the sum, over the relevant
  ids that occur in the result list, of the precision at the 1-based rank of the id (its first
  occurrence), divided by the number of all relevant ids, found or not; it returns \<open>0\<close> when
  no relevant id is among the results; and
  \<^verbatim>\<open>average_precision([7,17,9,42,5], {5,7,12,42})\<close> is \<open>0.525\<close>.
\<close>

theorem average_precision_correct:
  "average_precision result_ids relevant_ids
     = Inr (average_precision_spec result_ids (set relevant_ids))
   \<and> (set relevant_ids \<inter> set result_ids = {} \<longrightarrow> average_precision result_ids relevant_ids = Inr 0)
   \<and> average_precision [7, 17, 9, 42, 5] [5, 7, 12, 42] = Inr 0.525"
proof -
  have "average_precision result_ids relevant_ids = Inr 0"
    if "set relevant_ids \<inter> set result_ids = {}"
    using that by (simp add: average_precision_refines average_precision_spec_def)
  moreover have "average_precision [7, 17, 9, 42, 5] [5, 7, 12, 42] = Inr 0.525"
    by (simp add: average_precision_eq precision_spec_def rank_of_def)
  ultimately show ?thesis
    using average_precision_refines by blast
qed

theorem average_precision_correct_witness:
  "set [3 :: int] \<inter> set [1, 2] = {} \<and> average_precision [1, 2] [3] = Inr 0"
proof -
  have disjoint: "set [3 :: int] \<inter> set [1, 2] = {}"
    by simp
  with average_precision_correct [of "[1, 2]" "[3]"] show ?thesis
    by blast
qed

section \<open>Properties of the query engine\<close>

lemma query_step_Nil: "query_step self [] key = []"
  by (simp add: query_step_def merge_Nil_left split: option.split)

lemma foldl_query_step_Nil: "foldl (query_step self) [] ks = []"
  by (induction ks) (simp_all add: query_step_Nil)

lemma query_fold_unknown:
  assumes "key \<in> set ks" and "map_of (inverted_lists self) key = None"
  shows "foldl (query_step self) union_l ks = []"
proof -
  from assms(1) obtain before after where "ks = before @ key # after"
    by (auto simp add: in_set_conv_decomp)
  moreover have "query_step self u key = []" for u
    using assms(2) by (simp add: query_step_def)
  ultimately show ?thesis
    by (simp add: foldl_query_step_Nil)
qed

lemma process_query_unknown_keyword:
  assumes "key \<in> set (re_split query)" and "map_of (inverted_lists self) key = None"
  shows "process_query self query = []"
  using query_fold_unknown [OF assms] by (simp add: process_query_def query_union_def)

text \<open>
  Claim C2.  The claim: \<^verbatim>\<open>process_query\<close> starts from the posting list of the first keyword
  and folds only the remaining keywords into it; an absent keyword resets the accumulator, so a
  result is non-empty only if every keyword is in the index.  The loop of the method runs over
  all keywords, the first included, so the list of the first keyword is merged into itself:
  for the one keyword \<open>foo\<close> the accumulator is not the list of \<open>foo\<close>, and for the query of
  the docstring document 1 is ranked before document 2, against the docstring.  The second
  component of each pair is what the specification's wording gives with the same \<open>merge\<close>.
  (That an absent keyword empties the result is lemma \<open>process_query_unknown_keyword\<close>.)
\<close>

theorem process_query_folds_first_keyword_again:
  "query_union doctest_index [''foo''] = [(1, 0.4), (1, 0.2), (3, 1.2)]
   \<and> query_union_spec doctest_index [''foo''] = [(1, 0.2), (3, 0.6)]
   \<and> process_query doctest_index ''foo bar'' = [3, 1, 2, 1, 1]
   \<and> process_query_spec doctest_index ''foo bar'' = [3, 2, 1, 1]"
  by code_simp

lemma sample_first_pass:
  "build_lines InvertedIndex_init 0 sample_corpus
     = Inr \<lparr>inverted_lists =
              [(''film'', [(1, 2), (2, 1)]), (''noir'', [(1, 1)]), (''short'', [(2, 1)])],
            docs = [(''Film'', ''noir film'', 4), (''Short'', ''film'', 3)],
            avdoclen = 0\<rparr>"
  by code_simp

lemma sample_build:
  "build_from_file InvertedIndex_init sample_corpus 0.75 1.75 = Inr sample_index"
proof -
  have "build_from_file InvertedIndex_init sample_corpus 0.75 1.75
          = Inr \<lparr>inverted_lists =
                   [(''film'', [(1, 88 * IDF (Suc (Suc 0)) (Suc (Suc 0)) / 63),
                                (2, 44 * IDF (Suc (Suc 0)) (Suc (Suc 0)) / 41)]),
                    (''noir'', [(1, 44 * IDF (Suc (Suc 0)) (Suc 0) / 47)]),
                    (''short'', [(2, 44 * IDF (Suc (Suc 0)) (Suc 0) / 41)])],
                 docs = [(''Film'', ''noir film'', 4), (''Short'', ''film'', 3)],
                 avdoclen = 7 / 2\<rparr>"
    by (simp add: build_from_file_def sample_first_pass bm25tf_def bm25_def bm25tf_doc_def
          py_index_def idf_arg_def)
  then show ?thesis
    by (simp only: sample_index_def numeral_2_eq_2 One_nat_def)
qed

lemma sample_keywords:
  "re_split ''short'' = [''short''] \<and> re_split ''Short'' = [''Short'']
   \<and> re_split ''short '' = [''short'', '''']"
  by code_simp

text \<open>
  Claim C3.  The claim: \<^verbatim>\<open>process_query\<close> tokenizes the query as ingestion tokenizes
  documents, into lowercase tokens with empty pieces discarded.  Ingestion lowercases every word
  and skips empty ones (the title \<open>Short\<close> of the second line is indexed as \<open>short\<close>); the
  query is only split.  So the query \<open>Short\<close>, the word as the document has it, finds
  nothing, and a query ending in a blank has an empty last keyword, which is never in the index
  and empties the result.
\<close>

theorem process_query_case_sensitive:
  "build_from_file InvertedIndex_init sample_corpus 0.75 1.75 = Inr sample_index
   \<and> process_query sample_index ''short'' = [2]
   \<and> process_query sample_index ''Short'' = []
   \<and> process_query sample_index ''short '' = []"
proof -
  have "process_query sample_index ''short'' = [2]"
    by (simp add: process_query_def query_union_def first_list_def query_step_def
          sample_keywords sample_index_def merge_def merge_loop.simps merge_inner.simps)
  moreover have "process_query sample_index ''Short'' = []"
    by (simp add: process_query_def query_union_def first_list_def query_step_def
          sample_keywords sample_index_def)
  moreover have "process_query sample_index ''short '' = []"
    by (simp add: process_query_def query_union_def first_list_def query_step_def
          sample_keywords sample_index_def merge_def merge_loop.simps merge_inner.simps)
  ultimately show ?thesis
    using sample_build by simp
qed

section \<open>Properties of the index builder\<close>

lemma IDF_arg_simp: "idf_arg N n = (real N + 1) / (real n + 0.5)"
  by (simp add: idf_arg_def field_simps)

lemma idf_arg_positive: "0 < idf_arg N n"
  by (simp add: IDF_arg_simp)

lemma IDF_positive_full: "0 < IDF N N"
proof -
  have "1 < idf_arg N N"
    by (simp add: idf_arg_def)
  then show ?thesis
    by (simp add: IDF_def)
qed

text \<open>
  Claim C5.  The claim: with \<open>b = 0\<close> and \<open>k = \<infinity>\<close> the reference corpus of four documents
  gives the score \<open>2.000\<close> for the term in one document and \<open>0.000\<close> for the term in all
  four, because \<open>df = N\<close> makes the factor \<open>log2((N - df + 0.5) / (df + 0.5) + 1)\<close> zero.
  The factor that line 123 computes is positive whenever \<open>df = N\<close> (lemma
  \<open>IDF_positive_full\<close>): for \<open>N = df = 4\<close> it is \<open>log2(10/9)\<close>, and for \<open>N = 4\<close>,
  \<open>df = 1\<close> it is \<open>log2(10/3)\<close>, which is below \<open>2\<close>.
\<close>

theorem IDF_not_zero_for_df_N:
  "IDF 4 4 = log 2 (10 / 9) \<and> 0 < IDF 4 4 \<and> IDF 4 1 = log 2 (10 / 3) \<and> IDF 4 1 < 2"
proof -
  have a: "IDF 4 4 = log 2 (10 / 9)"
    by (simp add: IDF_def idf_arg_def)
  have b: "IDF 4 1 = log 2 (10 / 3)"
    by (simp add: IDF_def idf_arg_def)
  have "(10 / 3 :: real) < 2 powr 2"
    by simp
  then have "log 2 (10 / 3) < 2"
    by (simp add: log_less_iff)
  with a b IDF_positive_full [of 4] show ?thesis
    by simp
qed

lemma list_all_update:
  "list_all P al \<Longrightarrow> P (k, v) \<Longrightarrow> list_all P (AList.update k v al)"
  by (induction al) auto

lemma py_index_last: "pl \<noteq> [] \<Longrightarrow> py_index pl (- 1) = Inr (last pl)"
proof (cases pl)
  case Nil
  assume "pl \<noteq> []"
  with Nil show ?thesis by simp
next
  case (Cons x xs)
  have "nat (int (length (x # xs)) + - 1) = length xs"
    by simp
  moreover have "(x # xs) ! length xs = last (x # xs)"
    by (simp add: last_conv_nth)
  ultimately show ?thesis
    unfolding Cons py_index_def by simp
qed

lemma map_of_list_all: "list_all P al \<Longrightarrow> map_of al k = Some v \<Longrightarrow> P (k, v)"
  by (auto simp add: list_all_iff dest: map_of_SomeD)

lemma add_word_total:
  assumes "lists_nonempty il"
  shows "\<exists>il'. add_word doc_id w il = Inr il' \<and> lists_nonempty il'"
proof (cases "map_of il (strip (lower w))")
  case None
  then show ?thesis
    using assms by (auto simp add: add_word_def Let_def lists_nonempty_def intro: list_all_update)
next
  case (Some pl)
  with assms have "pl \<noteq> []"
    unfolding lists_nonempty_def by (auto dest: map_of_list_all)
  then show ?thesis
    using assms Some
    by (auto simp add: add_word_def Let_def lists_nonempty_def py_index_last
          intro: list_all_update)
qed

lemma add_words_total:
  "lists_nonempty il \<Longrightarrow> \<exists>il'. add_words doc_id ws il = Inr il' \<and> lists_nonempty il'"
proof (induction ws arbitrary: il)
  case Nil
  then show ?case by simp
next
  case (Cons w ws)
  from add_word_total [OF Cons.prems] obtain il1
    where "add_word doc_id w il = Inr il1" and "lists_nonempty il1"
    by blast
  with Cons.IH [of il1] show ?case by simp
qed

lemma count_list_dropWhile:
  "count_list s sep = (case dropWhile (\<lambda>c. c \<noteq> sep) s of [] \<Rightarrow> 0 | c # rest \<Rightarrow> Suc (count_list rest sep))"
  by (induction s) auto

lemma length_split_max: "length (split_max sep n s) = Suc (min n (count_list s sep))"
proof (induction n arbitrary: s)
  case 0
  then show ?case by simp
next
  case (Suc n)
  show ?case
  proof (cases "dropWhile (\<lambda>c. c \<noteq> sep) s")
    case Nil
    then show ?thesis
      using count_list_dropWhile [of s sep] by (simp del: dropWhile_eq_Nil_conv)
  next
    case (Cons c rest)
    then show ?thesis
      using count_list_dropWhile [of s sep] Suc.IH [of rest] by simp
  qed
qed

lemma split_max_three:
  "(\<exists>title description other. split_max TAB 2 s = [title, description, other])
     \<longleftrightarrow> 2 \<le> count_list s TAB"
proof -
  have "length (split_max TAB 2 s) = 3 \<longleftrightarrow> 2 \<le> count_list s TAB"
    by (simp add: length_split_max min_def)
  moreover have "length xs = 3 \<longleftrightarrow> (\<exists>a b c. xs = [a, b, c])" for xs :: "string list"
    by (auto simp add: length_Suc_conv numeral_3_eq_3)
  ultimately show ?thesis by simp
qed

lemma build_line_few_fields:
  assumes "count_list (strip line) TAB < 2"
  shows "build_line self doc_id line = Inl ValueError"
proof -
  have "\<not> (\<exists>title description other. split_max TAB 2 (strip line) = [title, description, other])"
    using assms by (simp add: split_max_three)
  then show ?thesis
    by (simp add: build_line_def Let_def split: list.split)
qed

lemma build_line_enough_fields:
  assumes "2 \<le> count_list (strip line) TAB" and "lists_nonempty (inverted_lists self)"
  shows "\<exists>self'. build_line self doc_id line = Inr self'
           \<and> lists_nonempty (inverted_lists self')"
proof -
  from assms(1) obtain title description other
    where parts: "split_max TAB 2 (strip line) = [title, description, other]"
    using split_max_three by blast
  from add_words_total [OF assms(2)] obtain il'
    where "add_words doc_id (re_split (strip line)) (inverted_lists self) = Inr il'"
      and "lists_nonempty il'"
    by blast
  with parts show ?thesis
    by (simp add: build_line_def Let_def)
qed

text \<open>
  Claim C9, as stated: ingesting a line fails exactly when the line has fewer than the minimum
  tab-separated fields, title and description; a line with at least those fields is ingested
  without error.  A line with exactly a title and a description is rejected: the split of
  line 74 is unpacked into three names.
\<close>

theorem build_line_two_fields_rejected:
  "split_max TAB 2 (strip (''Film'' @ [TAB] @ ''noir film'')) = [''Film'', ''noir film'']
   \<and> build_line InvertedIndex_init 1 (''Film'' @ [TAB] @ ''noir film'') = Inl ValueError
   \<and> build_from_file InvertedIndex_init [''Film'' @ [TAB] @ ''noir film''] 0.75 1.75
       = Inl ValueError"
proof -
  have fields: "split_max TAB 2 (strip (''Film'' @ [TAB] @ ''noir film''))
                  = [''Film'', ''noir film'']"
    by code_simp
  have line: "build_line InvertedIndex_init 1 (''Film'' @ [TAB] @ ''noir film'') = Inl ValueError"
    by code_simp
  then have "build_from_file InvertedIndex_init [''Film'' @ [TAB] @ ''noir film''] 0.75 1.75
               = Inl ValueError"
    by (simp add: build_from_file_def)
  with fields line show ?thesis
    by simp
qed

text \<open>
  Claim C9, amended: on an index whose posting lists are not empty (as those of every index
  under construction are), ingesting a line raises \<^verbatim>\<open>ValueError\<close> when the line,
  stripped of the white space around it (tabs included), has fewer than three tab-separated
  fields, that is fewer than two tabs; a stripped line with at least three fields (title,
  description and one more) is ingested without error.
\<close>

theorem build_line_fails_iff_fewer_than_three_fields:
  assumes "lists_nonempty (inverted_lists self)"
  shows "(count_list (strip line) TAB < 2 \<longrightarrow> build_line self doc_id line = Inl ValueError)
         \<and> (2 \<le> count_list (strip line) TAB
              \<longrightarrow> (\<exists>self'. build_line self doc_id line = Inr self'))"
  using build_line_few_fields build_line_enough_fields [OF _ assms] by blast

theorem build_line_fails_iff_fewer_than_three_fields_witness:
  "lists_nonempty (inverted_lists InvertedIndex_init)
   \<and> count_list (strip (''Film'' @ [TAB] @ ''noir film'')) TAB < 2
   \<and> build_line InvertedIndex_init 1 (''Film'' @ [TAB] @ ''noir film'') = Inl ValueError
   \<and> 2 \<le> count_list (strip (''Film'' @ [TAB] @ ''noir film'' @ [TAB] @ ''7'')) TAB
   \<and> (\<exists>self'. build_line InvertedIndex_init 1 (''Film'' @ [TAB] @ ''noir film'' @ [TAB] @ ''7'')
                 = Inr self')"
proof -
  have ne: "lists_nonempty (inverted_lists InvertedIndex_init)"
    by (simp add: lists_nonempty_def InvertedIndex_init_def)
  have few: "count_list (strip (''Film'' @ [TAB] @ ''noir film'')) TAB < 2"
    by code_simp
  have enough: "2 \<le> count_list (strip (''Film'' @ [TAB] @ ''noir film'' @ [TAB] @ ''7'')) TAB"
    by code_simp
  show ?thesis
    using ne few enough
      build_line_fails_iff_fewer_than_three_fields [OF ne, of "''Film'' @ [TAB] @ ''noir film''" 1]
      build_line_fails_iff_fewer_than_three_fields
        [OF ne, of "''Film'' @ [TAB] @ ''noir film'' @ [TAB] @ ''7''" 1]
    by blast
qed

section \<open>The posting list invariant\<close>

lemma strict_sorted_le_last:
  "sorted_wrt (<) (xs :: int list) \<Longrightarrow> x \<in> set xs \<Longrightarrow> x \<le> last xs"
  by (induction xs) (auto simp add: less_imp_le)

lemma ids_increasing_append:
  assumes "pl \<noteq> []" and "ids_increasing pl" and "fst (last pl) < d"
  shows "ids_increasing (pl @ [(d, c)])"
proof -
  have "x < d" if "x \<in> set (map fst pl)" for x
  proof -
    have "x \<le> last (map fst pl)"
      using assms(2) that unfolding ids_increasing_def by (rule strict_sorted_le_last)
    also have "last (map fst pl) = fst (last pl)"
      using assms(1) by (simp add: last_map)
    finally show ?thesis
      using assms(3) by simp
  qed
  then show ?thesis
    using assms(2) by (auto simp add: ids_increasing_def sorted_wrt_append)
qed

lemma map_fst_bump_last:
  "pl \<noteq> [] \<Longrightarrow> map fst (butlast pl @ [(fst (last pl), c)]) = map fst pl"
proof -
  assume "pl \<noteq> []"
  then have "map fst pl = map fst (butlast pl @ [last pl])"
    by simp
  then show ?thesis
    by simp
qed

lemma add_word_inv:
  assumes "postings_inv d il" and "add_word d w il = Inr il'"
  shows "postings_inv d il'"
proof (cases "strip (lower w) = []")
  case True
  then show ?thesis
    using assms by (simp add: add_word_def)
next
  case word: False
  show ?thesis
  proof (cases "map_of il (strip (lower w))")
    case None
    then have "il' = AList.update (strip (lower w)) [(d, 1)] il"
      using assms(2) word by (simp add: add_word_def Let_def)
    then show ?thesis
      using assms(1) by (simp add: postings_inv_def ids_increasing_def list_all_update)
  next
    case (Some pl)
    with assms(1) have pl: "pl \<noteq> []" "ids_increasing pl" "list_all (\<lambda>doc. fst doc \<le> d) pl"
      unfolding postings_inv_def by (auto dest: map_of_list_all)
    then have last_le: "fst (last pl) \<le> d"
      by (simp add: list_all_iff)
    show ?thesis
    proof (cases "fst (last pl) = d")
      case True
      then have il': "il' = AList.update (strip (lower w)) (butlast pl @ [(fst (last pl), snd (last pl) + 1)]) il"
        using assms(2) word Some pl(1) by (simp add: add_word_def Let_def py_index_last)
      have "map fst (butlast pl @ [(fst (last pl), snd (last pl) + 1)]) = map fst pl"
        using pl(1) by (rule map_fst_bump_last)
      then have "ids_increasing (butlast pl @ [(fst (last pl), snd (last pl) + 1)])"
        using pl(2) unfolding ids_increasing_def by (simp only:)
      moreover have "list_all (\<lambda>doc. fst doc \<le> d) (butlast pl @ [(fst (last pl), snd (last pl) + 1)])"
        using pl(3) last_le by (auto simp add: list_all_iff dest: in_set_butlastD)
      ultimately show ?thesis
        using assms(1) unfolding il' postings_inv_def by (simp add: list_all_update)
    next
      case False
      then have il': "il' = AList.update (strip (lower w)) (pl @ [(d, 1)]) il"
        using assms(2) word Some pl(1) by (simp add: add_word_def Let_def py_index_last)
      have "fst (last pl) < d"
        using False last_le by simp
      then have "ids_increasing (pl @ [(d, 1)])"
        using pl(1,2) by (simp add: ids_increasing_append)
      then show ?thesis
        using assms(1) pl(3) unfolding il' postings_inv_def by (simp add: list_all_update)
    qed
  qed
qed

lemma add_words_inv:
  "postings_inv d il \<Longrightarrow> add_words d ws il = Inr il' \<Longrightarrow> postings_inv d il'"
proof (induction ws arbitrary: il)
  case Nil
  then show ?case by simp
next
  case (Cons w ws)
  then show ?case
    by (auto split: sum.splits dest: add_word_inv)
qed

lemma build_line_inv:
  assumes "postings_inv d (inverted_lists self)" and "build_line self d line = Inr self'"
  shows "postings_inv d (inverted_lists self')"
  using assms
  by (auto simp add: build_line_def Let_def split: list.splits sum.splits dest: add_words_inv)

lemma postings_inv_mono: "postings_inv d il \<Longrightarrow> d \<le> d' \<Longrightarrow> postings_inv d' il"
  by (fastforce simp add: postings_inv_def list_all_iff)

lemma postings_inv_nonempty: "postings_inv d il \<Longrightarrow> lists_nonempty il"
  by (simp add: postings_inv_def lists_nonempty_def list_all_iff)

lemma build_lines_inv:
  "postings_inv d (inverted_lists self) \<Longrightarrow> build_lines self d lines = Inr self'
     \<Longrightarrow> \<exists>d'. postings_inv d' (inverted_lists self')"
proof (induction lines arbitrary: self d)
  case Nil
  then show ?case by auto
next
  case (Cons line rest)
  from Cons.prems(2) obtain self1
    where step: "build_line self (d + 1) line = Inr self1"
      and rest: "build_lines self1 (d + 1) rest = Inr self'"
    by (auto split: sum.splits)
  have "postings_inv (d + 1) (inverted_lists self)"
    using Cons.prems(1) by (rule postings_inv_mono) simp
  then have "postings_inv (d + 1) (inverted_lists self1)"
    using step by (rule build_line_inv)
  then show ?case
    using rest by (rule Cons.IH)
qed

lemma bm25tf_postings_ids:
  "bm25tf_postings self k1 b pl = Inr pl' \<Longrightarrow> map fst pl' = map fst pl"
proof (induction pl arbitrary: pl')
  case Nil
  then show ?case by simp
next
  case (Cons doc rest)
  then show ?case
    by (auto simp add: bm25tf_doc_def Let_def split: sum.splits if_splits)
qed

lemma doc_ids_update:
  "map_of il t = Some pl \<Longrightarrow> map fst pl' = map fst pl
     \<Longrightarrow> doc_ids (AList.update t pl' il) = doc_ids il"
  by (induction il) (auto simp add: doc_ids_def)

lemma bm25tf_ids:
  "bm25tf self k1 b t = Inr self' \<Longrightarrow> doc_ids (inverted_lists self') = doc_ids (inverted_lists self)"
  by (auto simp add: bm25tf_def split: option.splits sum.splits
        dest!: bm25tf_postings_ids intro: doc_ids_update)

lemma bm25_ids:
  "bm25 self k1 b t = Inr self' \<Longrightarrow> doc_ids (inverted_lists self') = doc_ids (inverted_lists self)"
  by (auto simp add: bm25_def Let_def o_def split: option.splits if_splits intro!: doc_ids_update)

lemma second_pass_ids:
  "second_pass self k b ws = Inr self'
     \<Longrightarrow> doc_ids (inverted_lists self') = doc_ids (inverted_lists self)"
proof (induction ws arbitrary: self)
  case Nil
  then show ?case by simp
next
  case (Cons w ws)
  from Cons.prems obtain self1 self2
    where "bm25tf self k b w = Inr self1" and "bm25 self1 k b w = Inr self2"
      and "second_pass self2 k b ws = Inr self'"
    by (auto split: sum.splits)
  then show ?case
    using Cons.IH [of self2] bm25tf_ids [of self k b w self1] bm25_ids [of self1 k b w self2]
    by simp
qed

lemma index_sorted_doc_ids:
  "index_sorted self
     \<longleftrightarrow> list_all (\<lambda>entry. sorted_wrt (<) (snd entry) \<and> distinct (snd entry))
           (doc_ids (inverted_lists self))"
  by (simp add: index_sorted_def ids_increasing_def doc_ids_def list_all_iff)

lemma postings_inv_sorted:
  "postings_inv d il
     \<Longrightarrow> list_all (\<lambda>entry. sorted_wrt (<) (snd entry) \<and> distinct (snd entry)) (doc_ids il)"
  by (auto simp add: postings_inv_def ids_increasing_def doc_ids_def list_all_iff
        strict_sorted_iff)

text \<open>
  Claim C7.  Whenever \<^verbatim>\<open>build_from_file\<close>, called on a new index, completes (it gives the
  documents the ids 1, 2, ... in the order of the lines), every posting list of the index has
  strictly increasing document ids, so each id occurs at most once in a list.
\<close>

theorem build_from_file_sorted:
  assumes "build_from_file InvertedIndex_init lines b k = Inr self'"
  shows "index_sorted self'"
proof -
  from assms obtain self1
    where first: "build_lines InvertedIndex_init 0 lines = Inr self1"
      and second: "second_pass
            (self1\<lparr>avdoclen :=
               foldl (\<lambda>a doc. a + real_of_int (snd (snd doc))) (avdoclen self1) (docs self1)
                 / real (length (docs self1))\<rparr>)
            k b (map fst (inverted_lists self1)) = Inr self'"
    by (auto simp add: build_from_file_def Let_def split: sum.splits if_splits)
  have "postings_inv 0 (inverted_lists InvertedIndex_init)"
    by (simp add: postings_inv_def InvertedIndex_init_def)
  then obtain d where "postings_inv d (inverted_lists self1)"
    using first build_lines_inv by blast
  then have "list_all (\<lambda>entry. sorted_wrt (<) (snd entry) \<and> distinct (snd entry))
               (doc_ids (inverted_lists self1))"
    by (rule postings_inv_sorted)
  moreover have "doc_ids (inverted_lists self') = doc_ids (inverted_lists self1)"
    using second_pass_ids [OF second] by simp
  ultimately show ?thesis
    by (simp add: index_sorted_doc_ids)
qed

theorem build_from_file_sorted_witness:
  "build_from_file InvertedIndex_init sample_corpus 0.75 1.75 = Inr sample_index
   \<and> index_sorted sample_index
   \<and> doc_ids (inverted_lists sample_index)
       = [(''film'', [1, 2]), (''noir'', [1]), (''short'', [2])]"
proof -
  have "doc_ids (inverted_lists sample_index)
          = [(''film'', [1, 2]), (''noir'', [1]), (''short'', [2])]"
    by (simp add: doc_ids_def sample_index_def)
  then show ?thesis
    using sample_build build_from_file_sorted [OF sample_build] by simp
qed

end
